theory Spec2Isabelle
  imports
    Main
    "HOL-Library.Char_ord"
    "HOL-Library.List_Lexorder"
    "HOL-Library.Product_Lexorder"
    "HOL-Library.Multiset"
begin

section \<open>Characters and strings of the source language\<close>

text \<open>
  A Python \<open>str\<close> is modelled as a \<^typ>\<open>string\<close>; a \<^typ>\<open>char\<close> stands for the code
  point with the same number, so the model covers the code points below 256. The
  classes below are the ones Python's Unicode database gives on that range:
  \<open>str.isspace\<close> (used by \<open>strip\<close>, \<open>lstrip\<close>, \<open>split()\<close> and the regex class
  \<open>\s\<close>), the word characters of the regex class \<open>\w\<close> (alphanumeric or underscore,
  used by \<open>\b\<close>) and \<open>str.lower\<close> (also used for \<open>re.IGNORECASE\<close>).
\<close>

definition code_point :: "char \<Rightarrow> nat" where
  "code_point c = of_char c"

definition is_space :: "char \<Rightarrow> bool" where
  "is_space c \<longleftrightarrow>
     (let n = code_point c
      in (9 \<le> n \<and> n \<le> 13) \<or> (28 \<le> n \<and> n \<le> 32) \<or> n = 133 \<or> n = 160)"

definition is_word :: "char \<Rightarrow> bool" where
  "is_word c \<longleftrightarrow>
     (let n = code_point c
      in (48 \<le> n \<and> n \<le> 57) \<or> (65 \<le> n \<and> n \<le> 90) \<or> n = 95 \<or> (97 \<le> n \<and> n \<le> 122)
         \<or> n = 170 \<or> n = 178 \<or> n = 179 \<or> n = 181 \<or> n = 185 \<or> n = 186
         \<or> (188 \<le> n \<and> n \<le> 190) \<or> (192 \<le> n \<and> n \<le> 214) \<or> (216 \<le> n \<and> n \<le> 246)
         \<or> 248 \<le> n)"

definition upper_chars :: "char list" where
  "upper_chars = ''ABCDEFGHIJKLMNOPQRSTUVWXYZ'' @
     [CHR 0xC0, CHR 0xC1, CHR 0xC2, CHR 0xC3, CHR 0xC4, CHR 0xC5, CHR 0xC6, CHR 0xC7,
      CHR 0xC8, CHR 0xC9, CHR 0xCA, CHR 0xCB, CHR 0xCC, CHR 0xCD, CHR 0xCE, CHR 0xCF,
      CHR 0xD0, CHR 0xD1, CHR 0xD2, CHR 0xD3, CHR 0xD4, CHR 0xD5, CHR 0xD6,
      CHR 0xD8, CHR 0xD9, CHR 0xDA, CHR 0xDB, CHR 0xDC, CHR 0xDD, CHR 0xDE]"

definition lower_chars :: "char list" where
  "lower_chars = ''abcdefghijklmnopqrstuvwxyz'' @
     [CHR 0xE0, CHR 0xE1, CHR 0xE2, CHR 0xE3, CHR 0xE4, CHR 0xE5, CHR 0xE6, CHR 0xE7,
      CHR 0xE8, CHR 0xE9, CHR 0xEA, CHR 0xEB, CHR 0xEC, CHR 0xED, CHR 0xEE, CHR 0xEF,
      CHR 0xF0, CHR 0xF1, CHR 0xF2, CHR 0xF3, CHR 0xF4, CHR 0xF5, CHR 0xF6,
      CHR 0xF8, CHR 0xF9, CHR 0xFA, CHR 0xFB, CHR 0xFC, CHR 0xFD, CHR 0xFE]"

definition lower_char :: "char \<Rightarrow> char" where
  "lower_char c = (case map_of (zip upper_chars lower_chars) c of Some d \<Rightarrow> d | None \<Rightarrow> c)"

text \<open>\<open>s.lower()\<close>\<close>

definition lower :: "string \<Rightarrow> string" where
  "lower s = map lower_char s"

text \<open>\<open>s.lstrip()\<close>, \<open>s.rstrip()\<close> and \<open>s.strip()\<close>\<close>

definition lstrip :: "string \<Rightarrow> string" where
  "lstrip s = dropWhile is_space s"

definition rstrip :: "string \<Rightarrow> string" where
  "rstrip s = rev (dropWhile is_space (rev s))"

definition strip :: "string \<Rightarrow> string" where
  "strip s = rstrip (lstrip s)"

text \<open>\<open>s.startswith(p)\<close> and \<open>p in s\<close>\<close>

definition startswith :: "string \<Rightarrow> string \<Rightarrow> bool" where
  "startswith s p \<longleftrightarrow> take (length p) s = p"

fun contains :: "string \<Rightarrow> string \<Rightarrow> bool" where
  "contains [] p = (p = [])"
| "contains (c # cs) p = (startswith (c # cs) p \<or> contains cs p)"

text \<open>
  \<open>s.split()\<close>: the maximal runs of non-whitespace characters, in order; runs of
  whitespace separate them and never give an empty piece.
\<close>

function split_ws :: "string \<Rightarrow> string list" where
  "split_ws s =
     (let t = dropWhile is_space s
      in if t = [] then []
         else takeWhile (\<lambda>c. \<not> is_space c) t # split_ws (dropWhile (\<lambda>c. \<not> is_space c) t))"
  by pat_completeness auto
termination
proof (relation "measure length", goal_cases)
  case 1
  show ?case by simp
next
  case (2 s t)
  then obtain c cs where t: "t = c # cs" and c: "\<not> is_space c"
    by (metis dropWhile_eq_Nil_conv hd_dropWhile list.collapse)
  have "length (dropWhile (\<lambda>c. \<not> is_space c) t) \<le> length cs"
    using t c by (simp add: length_dropWhile_le)
  moreover have "length t \<le> length s"
    using 2 by (simp add: length_dropWhile_le)
  ultimately show ?case using t by simp
qed

declare split_ws.simps [simp del]

text \<open>
  \<open>s.split(sep)\<close> for a one-character separator: the pieces between the occurrences
  of the separator, empty pieces included; the result is never empty.
\<close>

fun split_on :: "char \<Rightarrow> string \<Rightarrow> string list" where
  "split_on sep [] = [[]]"
| "split_on sep (c # cs) =
     (if c = sep then [] # split_on sep cs
      else (case split_on sep cs of
              p # ps \<Rightarrow> (c # p) # ps
            | [] \<Rightarrow> [[c]]))"

section \<open>Datetime normaliser\<close>

text \<open>
  \<open>parse_datetime\<close>: the unpacking \<open>yyyy, mm, dd = date_part.split("/")\<close> raises
  \<open>ValueError\<close> unless the split has exactly three pieces; the handler returns the
  empty string.
\<close>

definition parse_datetime :: "string \<Rightarrow> string" where
  "parse_datetime dt_str =
     (if dt_str = [] \<or> strip dt_str = [] then []
      else let parts = split_ws (strip dt_str)
           in (case parts of
                 [date_part, time_part] \<Rightarrow>
                   (case split_on CHR ''/'' date_part of
                      [yyyy, mm, dd] \<Rightarrow> yyyy @ ''-'' @ mm @ ''-'' @ dd @ ''T'' @ time_part
                    | _ \<Rightarrow> [])
               | _ \<Rightarrow> []))"

section \<open>Regular expressions\<close>

text \<open>
  The fragment of Python's \<open>re\<close> syntax that the three patterns of the program use.
  \<open>Lit\<close> is literal text, \<open>WsStar\<close> is \<open>\s*\<close>, \<open>WsPlus\<close> is \<open>\s+\<close> (both greedy),
  \<open>WordB\<close> is \<open>\b\<close>, \<open>EndS\<close> is \<open>$\<close> without \<open>re.MULTILINE\<close>, \<open>Alt\<close> is \<open>|\<close> and
  \<open>Seq\<close> is concatenation. Groups only delimit the alternation: the one capturing
  group, in \<open>MODE_PATTERN\<close>, lies between two zero-width \<open>\b\<close> and so spans the whole
  match. A compiled pattern is the expression together with its \<open>re.IGNORECASE\<close> flag.
\<close>

datatype rx = Lit string | WsStar | WsPlus | WordB | EndS | Alt rx rx | Seq rx rx

type_synonym pattern = "bool \<times> rx"

definition lit_eq :: "bool \<Rightarrow> string \<Rightarrow> string \<Rightarrow> bool" where
  "lit_eq ic a b \<longleftrightarrow> (if ic then map lower_char a = map lower_char b else a = b)"

definition is_word_opt :: "char option \<Rightarrow> bool" where
  "is_word_opt p = (case p of None \<Rightarrow> False | Some c \<Rightarrow> is_word c)"

definition first_char :: "string \<Rightarrow> char option" where
  "first_char s = (case s of [] \<Rightarrow> None | c # _ \<Rightarrow> Some c)"

text \<open>The character before the position \<open>k\<close> of \<open>s\<close>, when \<open>p\<close> is the one before \<open>s\<close>.\<close>

definition prev_char :: "char option \<Rightarrow> string \<Rightarrow> nat \<Rightarrow> char option" where
  "prev_char p s k = (if k = 0 then p else Some (s ! (k - 1)))"

text \<open>
  \<open>rmatch ic r p s\<close> lists the lengths of the matches of \<open>r\<close> that start at the
  beginning of \<open>s\<close>, where \<open>p\<close> is the character before \<open>s\<close> (\<open>None\<close> at the start of
  the subject). The list is in the order in which the backtracking matcher tries
  them: a greedy repetition tries the longest run first, an alternation its left
  branch first. The match the engine reports at a position is the head of the list.
\<close>

fun rmatch :: "bool \<Rightarrow> rx \<Rightarrow> char option \<Rightarrow> string \<Rightarrow> nat list" where
  "rmatch ic (Lit t) p s =
     (if length t \<le> length s \<and> lit_eq ic (take (length t) s) t then [length t] else [])"
| "rmatch ic WsStar p s = rev [0 ..< Suc (length (takeWhile is_space s))]"
| "rmatch ic WsPlus p s = rev [1 ..< Suc (length (takeWhile is_space s))]"
| "rmatch ic WordB p s = (if is_word_opt p \<noteq> is_word_opt (first_char s) then [0] else [])"
| "rmatch ic EndS p s = (if s = [] \<or> s = [CHR 0x0A] then [0] else [])"
| "rmatch ic (Alt a b) p s = rmatch ic a p s @ rmatch ic b p s"
| "rmatch ic (Seq a b) p s =
     concat (map (\<lambda>k. map (\<lambda>m. k + m) (rmatch ic b (prev_char p s k) (drop k s)))
                 (rmatch ic a p s))"

text \<open>
  \<open>pattern.search\<close>: the leftmost position with a match, as the offset from the
  beginning of \<open>s\<close> and the length of the match.
\<close>

fun re_search :: "pattern \<Rightarrow> char option \<Rightarrow> string \<Rightarrow> (nat \<times> nat) option" where
  "re_search pt p [] =
     (case rmatch (fst pt) (snd pt) p [] of k # _ \<Rightarrow> Some (0, k) | [] \<Rightarrow> None)"
| "re_search pt p (c # cs) =
     (case rmatch (fst pt) (snd pt) p (c # cs) of
        k # _ \<Rightarrow> Some (0, k)
      | [] \<Rightarrow> (case re_search pt (Some c) cs of
                None \<Rightarrow> None
              | Some (i, k) \<Rightarrow> Some (Suc i, k)))"

text \<open>
  \<open>pattern.sub("", s)\<close> and \<open>pattern.split(s)\<close> scan the subject from left to right;
  the first argument counts the characters still inside the current match. Every
  pattern of this program consumes at least one character, so the way Python treats
  an empty match plays no part: here a position whose first match is empty counts
  as a position without a match.
\<close>

fun re_remove :: "pattern \<Rightarrow> nat \<Rightarrow> char option \<Rightarrow> string \<Rightarrow> string" where
  "re_remove pt n p [] = []"
| "re_remove pt (Suc n) p (c # cs) = re_remove pt n (Some c) cs"
| "re_remove pt 0 p (c # cs) =
     (case rmatch (fst pt) (snd pt) p (c # cs) of
        Suc n # _ \<Rightarrow> re_remove pt n (Some c) cs
      | _ \<Rightarrow> c # re_remove pt 0 (Some c) cs)"

fun re_split :: "pattern \<Rightarrow> nat \<Rightarrow> char option \<Rightarrow> string \<Rightarrow> string \<Rightarrow> string list" where
  "re_split pt n p cur [] = [cur]"
| "re_split pt (Suc n) p cur (c # cs) = re_split pt n (Some c) cur cs"
| "re_split pt 0 p cur (c # cs) =
     (case rmatch (fst pt) (snd pt) p (c # cs) of
        Suc n # _ \<Rightarrow> cur # re_split pt n (Some c) [] cs
      | _ \<Rightarrow> re_split pt 0 (Some c) (cur @ [c]) cs)"

section \<open>Name cleaning and mode detection\<close>

text \<open>\<open>MODE_PATTERN = re.compile(r"\b(B2B|B3B|F2F|VS)\b")\<close>\<close>

definition MODE_PATTERN :: pattern where
  "MODE_PATTERN =
     (False, Seq WordB (Seq (Alt (Lit ''B2B'') (Alt (Lit ''B3B'') (Alt (Lit ''F2F'') (Lit ''VS''))))
                            WordB))"

text \<open>\<open>SUFFIX_PATTERN = re.compile(r"\s+(A/V|\(live\))$", re.IGNORECASE)\<close>\<close>

definition SUFFIX_PATTERN :: pattern where
  "SUFFIX_PATTERN = (True, Seq WsPlus (Seq (Alt (Lit ''A/V'') (Lit ''(live)'')) EndS))"

definition clean_name :: "string \<Rightarrow> string" where
  "clean_name name = strip (re_remove SUFFIX_PATTERN 0 None name)"

definition detect_mode :: "string \<Rightarrow> string" where
  "detect_mode name =
     (case re_search MODE_PATTERN None name of
        Some (i, k) \<Rightarrow> take k (drop i name)
      | None \<Rightarrow> [])"

section \<open>Slot grouping and name splitting\<close>

text \<open>A row of \<open>load_csv\<close>: the dictionary with the keys \<open>start\<close>, \<open>end\<close>, \<open>name\<close>, \<open>stage\<close>.\<close>

record raw_row =
  row_start :: string
  row_end :: string
  row_name :: string
  row_stage :: string

text \<open>
  A record of \<open>group_events\<close>; \<open>custom_name\<close> is \<open>None\<close> when the dictionary has no
  such key.
\<close>

record output_event =
  name :: string
  time :: string
  end_time :: string
  stage :: string
  performance_mode :: string
  custom_name :: "string option"

type_synonym slot_key = "string \<times> string \<times> string"

text \<open>
  \<open>grouped[key].append(name)\<close> on a \<open>defaultdict(list)\<close>. A Python dictionary iterates
  in the order in which its keys were first inserted, so it is an association list
  with a new key added at the end.
\<close>

fun grouped_append :: "(slot_key \<times> string list) list \<Rightarrow> slot_key \<Rightarrow> string
    \<Rightarrow> (slot_key \<times> string list) list" where
  "grouped_append [] key n = [(key, [n])]"
| "grouped_append ((k, ns) # g) key n =
     (if k = key then (k, ns @ [n]) # g else (k, ns) # grouped_append g key n)"

definition grouped :: "raw_row list \<Rightarrow> (slot_key \<times> string list) list" where
  "grouped events =
     foldl (\<lambda>g ev. grouped_append g (row_start ev, row_end ev, row_stage ev) (row_name ev))
           [] events"

text \<open>
  The pattern compiled inside the loop, with \<open>re.IGNORECASE\<close>:
  \<open>\s*(?:B2B|B3B|F2F|VS|X|x|vs| & )\s*\<close>. (The pattern compiled before the loop is
  rebound before it is ever used.)
\<close>

definition split_regex :: pattern where
  "split_regex =
     (True, Seq WsStar
              (Seq (Alt (Lit ''B2B'') (Alt (Lit ''B3B'') (Alt (Lit ''F2F'') (Alt (Lit ''VS'')
                   (Alt (Lit ''X'') (Alt (Lit ''x'') (Alt (Lit ''vs'') (Lit '' & ''))))))))
                   WsStar))"

text \<open>
  \<open>[clean_name(n) for n in split_regex.split(combined_name) if clean_name(n)]\<close>:
  the non-empty suffix-stripped pieces of the name.
\<close>

definition split_pieces :: "string \<Rightarrow> string list" where
  "split_pieces combined_name =
     map clean_name (filter (\<lambda>n. clean_name n \<noteq> [])
                            (re_split split_regex 0 None [] combined_name))"

definition is_exception :: "string \<Rightarrow> bool" where
  "is_exception combined_name \<longleftrightarrow> lower (strip combined_name) = ''b2b2b2b2b''"

definition split_artists :: "string \<Rightarrow> string list" where
  "split_artists combined_name =
     (if is_exception combined_name then [clean_name combined_name]
      else split_pieces combined_name)"

text \<open>
  The body of the inner loop of \<open>group_events\<close>: the records appended to \<open>merged\<close>
  for one name of one slot. (The line the loop prints to the standard output is
  left out.)
\<close>

definition emit_name :: "slot_key \<Rightarrow> string \<Rightarrow> output_event list" where
  "emit_name key combined_name =
     (case key of (start, end', stage') \<Rightarrow>
        if length (split_artists combined_name) > 1 then
          map (\<lambda>n. \<lparr>name = n, time = parse_datetime start, end_time = parse_datetime end',
                     stage = stage', performance_mode = ''B2B'',
                     custom_name = Some (clean_name combined_name)\<rparr>)
              (split_artists combined_name)
        else
          [\<lparr>name = clean_name combined_name, time = parse_datetime start,
            end_time = parse_datetime end', stage = stage',
            performance_mode = detect_mode combined_name, custom_name = None\<rparr>])"

definition group_events :: "raw_row list \<Rightarrow> output_event list" where
  "group_events events =
     concat (map (\<lambda>(key, names). concat (map (emit_name key) names)) (grouped events))"

text \<open>
  The same step applied to each row on its own, without grouping: the reference the
  grouped emission is compared with.
\<close>

definition emit_row :: "raw_row \<Rightarrow> output_event list" where
  "emit_row ev = emit_name (row_start ev, row_end ev, row_stage ev) (row_name ev)"

definition emit_ungrouped :: "raw_row list \<Rightarrow> output_event list" where
  "emit_ungrouped events = concat (map emit_row events)"

section \<open>Loading the rows\<close>

datatype error = AttributeError | CsvError

text \<open>A value of a \<open>csv.DictReader\<close> row: a string, or \<open>None\<close> (the default \<open>restval\<close>).\<close>

datatype cell = Str string | NoneVal

text \<open>
  \<open>csv.DictReader.__next__\<close> on one non-empty row: \<open>dict(zip(fieldnames, row))\<close>, then
  every field name beyond the length of a short row is set to \<open>restval\<close>, which is
  \<open>None\<close>. (The surplus values of a long row are stored under the key \<open>None\<close>, which
  no lookup of the program uses.)
\<close>

definition dict_row :: "string list \<Rightarrow> string list \<Rightarrow> (string \<rightharpoonup> cell)" where
  "dict_row fieldnames row =
     foldl (\<lambda>d k. d(k \<mapsto> NoneVal))
           (foldl (\<lambda>d (k, v). d(k \<mapsto> Str v)) Map.empty (zip fieldnames row))
           (drop (length row) fieldnames)"

text \<open>
  \<open>row.get(key, "").strip()\<close>: the default is used only when the key is absent; a
  key present with the value \<open>None\<close> gives \<open>None\<close>, which has no \<open>strip\<close>.
\<close>

definition get_strip :: "(string \<rightharpoonup> cell) \<Rightarrow> string \<Rightarrow> error + string" where
  "get_strip d key =
     (case d key of
        None \<Rightarrow> Inr (strip [])
      | Some (Str v) \<Rightarrow> Inr (strip v)
      | Some NoneVal \<Rightarrow> Inl AttributeError)"

text \<open>The body of the loop over the reader: an error, a skipped row or a kept row.\<close>

definition row_event :: "(string \<rightharpoonup> cell) \<Rightarrow> error + raw_row option" where
  "row_event d =
     (case get_strip d ''Start'' of Inl e \<Rightarrow> Inl e | Inr start \<Rightarrow>
      case get_strip d ''End'' of Inl e \<Rightarrow> Inl e | Inr end' \<Rightarrow>
      case get_strip d ''Name'' of Inl e \<Rightarrow> Inl e | Inr name' \<Rightarrow>
      case get_strip d ''Location'' of Inl e \<Rightarrow> Inl e | Inr stage' \<Rightarrow>
        if start = [] \<or> end' = [] \<or> name' = [] \<or> stage' = [] then Inr None
        else Inr (Some \<lparr>row_start = start, row_end = end', row_name = name',
                         row_stage = stage'\<rparr>))"

text \<open>The loop over the data rows; \<open>DictReader\<close> skips the rows that are \<open>[]\<close>.\<close>

fun read_rows :: "string list \<Rightarrow> string list list \<Rightarrow> error + raw_row list" where
  "read_rows fieldnames [] = Inr []"
| "read_rows fieldnames (r # rs) =
     (if r = [] then read_rows fieldnames rs
      else (case row_event (dict_row fieldnames r) of
              Inl e \<Rightarrow> Inl e
            | Inr None \<Rightarrow> read_rows fieldnames rs
            | Inr (Some ev) \<Rightarrow>
                (case read_rows fieldnames rs of
                   Inl e \<Rightarrow> Inl e
                 | Inr evs \<Rightarrow> Inr (ev # evs))))"

text \<open>The first pass of \<open>load_csv\<close>: a leading comment marker is removed.\<close>

definition process_line :: "string \<Rightarrow> string" where
  "process_line line =
     (let stripped = lstrip line
      in if startswith stripped ''//'' then lstrip (drop 2 stripped) else line)"

definition is_header :: "string \<Rightarrow> bool" where
  "is_header line \<longleftrightarrow>
     startswith (strip line) ''Start,'' \<and> contains line ''End'' \<and> contains line ''Name''
     \<and> contains line ''Location''"

fun find_header :: "string list \<Rightarrow> nat option" where
  "find_header [] = None"
| "find_header (line # ls) =
     (if is_header line then Some 0
      else (case find_header ls of None \<Rightarrow> None | Some i \<Rightarrow> Some (Suc i)))"

text \<open>
  \<open>load_csv\<close> on the lines of the file (the result of \<open>readlines\<close>). The tokeniser
  \<open>csv.reader\<close> of the standard library is a parameter: \<open>reader ls\<close> is the list of
  rows it yields on the lines \<open>ls\<close>, and whether it raises \<open>csv.Error\<close> after them.
  The first row gives the field names. The result is what the call prints to the
  standard error stream together with the returned rows or the exception raised.
\<close>

definition load_csv :: "(string list \<Rightarrow> string list list \<times> bool) \<Rightarrow> string list
    \<Rightarrow> string list \<times> (error + raw_row list)" where
  "load_csv reader raw_lines =
     (let processed = map process_line raw_lines
      in case find_header processed of
           None \<Rightarrow> ([''Error: CSV header row not found.''], Inr [])
         | Some header_idx \<Rightarrow>
             (case reader (drop header_idx processed) of
                ([], failed) \<Rightarrow> ([], if failed then Inl CsvError else Inr [])
              | (fieldnames # rows, failed) \<Rightarrow>
                  (case read_rows fieldnames rows of
                     Inl e \<Rightarrow> ([], Inl e)
                   | Inr events \<Rightarrow> ([], if failed then Inl CsvError else Inr events))))"

section \<open>The pipeline\<close>

text \<open>
  \<open>main\<close> without argument parsing and serialisation: the exit with status 1 when no
  row was loaded, or the sorted records handed to \<open>to_json\<close>. \<open>list.sort\<close> with a key
  is a stable sort; the key is the pair of the time and the stage, compared as
  Python compares tuples of strings.
\<close>

datatype outcome = Exit1 | Output "output_event list"

definition sort_merged :: "output_event list \<Rightarrow> output_event list" where
  "sort_merged merged = sort_key (\<lambda>x. (time x, stage x)) merged"

definition main :: "(string list \<Rightarrow> string list list \<times> bool) \<Rightarrow> string list
    \<Rightarrow> string list \<times> (error + outcome)" where
  "main reader raw_lines =
     (case load_csv reader raw_lines of
        (err, Inl e) \<Rightarrow> (err, Inl e)
      | (err, Inr events) \<Rightarrow>
          if events = [] then (err @ [''No valid events found. Check CSV formatting.''], Inr Exit1)
          else (err, Inr (Output (sort_merged (group_events events)))))"

section \<open>Auxiliary notions for the proofs\<close>

text \<open>The records emitted for a grouping, slot by slot and name by name.\<close>

definition flat :: "(slot_key \<times> string list) list \<Rightarrow> output_event list" where
  "flat g = concat (map (\<lambda>(key, names). concat (map (emit_name key) names)) g)"

text \<open>The grouping holds the name \<open>n\<close> under the key \<open>k\<close>.\<close>

definition has_entry :: "(slot_key \<times> string list) list \<Rightarrow> slot_key \<Rightarrow> string \<Rightarrow> bool" where
  "has_entry g k n \<longleftrightarrow> (\<exists>g1 ns1 ns2 g2. g = g1 @ (k, ns1 @ n # ns2) # g2)"

text \<open>
  The mode tokens, and an occurrence of a token \<open>t\<close> at the position \<open>i\<close> of \<open>s\<close> that is
  delimited by word boundaries: no word character right before it and none right
  after it.
\<close>

definition mode_tokens :: "string list" where
  "mode_tokens = [''B2B'', ''B3B'', ''F2F'', ''VS'']"

definition delimited_at :: "string \<Rightarrow> nat \<Rightarrow> string \<Rightarrow> bool" where
  "delimited_at s i t \<longleftrightarrow>
     i + length t \<le> length s \<and> take (length t) (drop i s) = t
     \<and> (i = 0 \<or> \<not> is_word (s ! (i - 1)))
     \<and> (i + length t = length s \<or> \<not> is_word (s ! (i + length t)))"

text \<open>The token \<open>t\<close> is a prefix of \<open>r\<close> and no word character follows it.\<close>

definition token_here :: "string \<Rightarrow> string \<Rightarrow> bool" where
  "token_here r t \<longleftrightarrow>
     length t \<le> length r \<and> take (length t) r = t
     \<and> \<not> is_word_opt (first_char (drop (length t) r))"




definition ex_row_literal :: raw_row where
  "ex_row_literal = \<lparr>row_start = ''2024/07/13 18:00'', row_end = ''2024/07/13 19:00'',
     row_name = ''B2B2B2B2B'', row_stage = ''Main Stage''\<rparr>"

definition ex_row_literal_mixed :: raw_row where
  "ex_row_literal_mixed = \<lparr>row_start = ''2024/07/13 18:00'', row_end = ''2024/07/13 19:00'',
     row_name = '' b2B2b2B2B '', row_stage = ''Main Stage''\<rparr>"

text \<open>A sample file, with the rows a tokeniser yields on it.\<close>

definition ex_reader :: "string list \<Rightarrow> string list list \<times> bool" where
  "ex_reader ls = ([[''Start'', ''End'', ''Name'', ''Location''],
                    [''2024/07/13 18:00'', ''2024/07/13 19:00'', ''DJ X B2B DJ Y'', ''Main Stage'']],
                   False)"

definition ex_lines :: "string list" where
  "ex_lines = [''// some note'', ''Start,End,Name,Location'',
               ''2024/07/13 18:00,2024/07/13 19:00,DJ X B2B DJ Y,Main Stage'']"



section \<open>Grouping\<close>

lemma group_events_flat: "group_events events = flat (grouped events)"
  by (simp add: group_events_def flat_def)

lemma flat_simps [simp]:
  "flat [] = []"
  "flat ((k, ns) # g) = concat (map (emit_name k) ns) @ flat g"
  "flat (g @ h) = flat g @ flat h"
  by (simp_all add: flat_def)

lemma mset_flat_grouped_append:
  "mset (flat (grouped_append g k n)) = mset (flat g) + mset (emit_name k n)"
  by (induction g k n rule: grouped_append.induct) auto

lemma grouped_snoc:
  "grouped (evs @ [ev]) =
     grouped_append (grouped evs) (row_start ev, row_end ev, row_stage ev) (row_name ev)"
  by (simp add: grouped_def)

lemma mset_flat_grouped: "mset (flat (grouped evs)) = mset (emit_ungrouped evs)"
proof (induction evs rule: rev_induct)
  case Nil
  show ?case by (simp add: grouped_def emit_ungrouped_def)
next
  case (snoc ev evs)
  then show ?case
    by (simp add: grouped_snoc mset_flat_grouped_append emit_ungrouped_def emit_row_def)
qed

lemma has_entry_append_new: "has_entry (grouped_append g k n) k n"
proof (induction g k n rule: grouped_append.induct)
  case (1 key n)
  have "[(key, [n])] = [] @ (key, [] @ n # []) # []" by simp
  then show ?case unfolding has_entry_def grouped_append.simps by blast
next
  case (2 k ns g key n)
  show ?case
  proof (cases "k = key")
    case True
    have "(k, ns @ [n]) # g = [] @ (k, ns @ n # []) # g" by simp
    then show ?thesis using True unfolding has_entry_def by (metis grouped_append.simps(2))
  next
    case False
    with 2 obtain g1 ns1 ns2 g2 where "grouped_append g key n = g1 @ (key, ns1 @ n # ns2) # g2"
      unfolding has_entry_def by blast
    then have "grouped_append ((k, ns) # g) key n = ((k, ns) # g1) @ (key, ns1 @ n # ns2) # g2"
      using False by simp
    then show ?thesis unfolding has_entry_def by blast
  qed
qed

lemma has_entry_append_old: "has_entry g k n \<Longrightarrow> has_entry (grouped_append g k' n') k n"
proof (induction g k' n' rule: grouped_append.induct)
  case (1 key n')
  then show ?case by (simp add: has_entry_def)
next
  case (2 k0 ns g key n')
  from 2(2) obtain g1 ns1 ns2 g2 where eq: "(k0, ns) # g = g1 @ (k, ns1 @ n # ns2) # g2"
    unfolding has_entry_def by blast
  show ?case
  proof (cases g1)
    case Nil
    with eq have *: "k0 = k" "ns = ns1 @ n # ns2" "g = g2" by simp_all
    show ?thesis
    proof (cases "k0 = key")
      case True
      have "grouped_append ((k0, ns) # g) key n' = [] @ (k, ns1 @ n # (ns2 @ [n'])) # g2"
        using True * by simp
      then show ?thesis unfolding has_entry_def by blast
    next
      case False
      have "grouped_append ((k0, ns) # g) key n' = [] @ (k, ns1 @ n # ns2) # grouped_append g2 key n'"
        using False * by simp
      then show ?thesis unfolding has_entry_def by blast
    qed
  next
    case (Cons a g1')
    with eq have a: "a = (k0, ns)" and g: "g = g1' @ (k, ns1 @ n # ns2) # g2" by simp_all
    then have he: "has_entry g k n" unfolding has_entry_def by blast
    show ?thesis
    proof (cases "k0 = key")
      case True
      have "grouped_append ((k0, ns) # g) key n' = [(k0, ns @ [n'])] @ g1' @ (k, ns1 @ n # ns2) # g2"
        using True g by simp
      then have "grouped_append ((k0, ns) # g) key n' = ([(k0, ns @ [n'])] @ g1') @ (k, ns1 @ n # ns2) # g2"
        by simp
      then show ?thesis unfolding has_entry_def by blast
    next
      case False
      from 2(1)[OF False he] obtain h1 m1 m2 h2 where
        "grouped_append g key n' = h1 @ (k, m1 @ n # m2) # h2"
        unfolding has_entry_def by blast
      then have "grouped_append ((k0, ns) # g) key n' = ((k0, ns) # h1) @ (k, m1 @ n # m2) # h2"
        using False by simp
      then show ?thesis unfolding has_entry_def by blast
    qed
  qed
qed

lemma has_entry_grouped:
  "ev \<in> set evs \<Longrightarrow> has_entry (grouped evs) (row_start ev, row_end ev, row_stage ev) (row_name ev)"
proof (induction evs rule: rev_induct)
  case Nil
  then show ?case by simp
next
  case (snoc x xs)
  show ?case
  proof (cases "ev = x")
    case True
    then show ?thesis by (simp add: grouped_snoc has_entry_append_new)
  next
    case False
    with snoc have "has_entry (grouped xs) (row_start ev, row_end ev, row_stage ev) (row_name ev)"
      by simp
    then show ?thesis by (simp add: grouped_snoc has_entry_append_old)
  qed
qed

lemma group_events_block:
  assumes "ev \<in> set evs"
  shows "\<exists>pre post. group_events evs = pre @ emit_row ev @ post"
proof -
  from has_entry_grouped[OF assms] obtain g1 ns1 ns2 g2 where
    "grouped evs = g1 @ ((row_start ev, row_end ev, row_stage ev), ns1 @ row_name ev # ns2) # g2"
    unfolding has_entry_def by blast
  then have "group_events evs =
      (flat g1 @ concat (map (emit_name (row_start ev, row_end ev, row_stage ev)) ns1))
      @ emit_row ev
      @ (concat (map (emit_name (row_start ev, row_end ev, row_stage ev)) ns2) @ flat g2)"
    by (simp add: group_events_flat emit_row_def)
  then show ?thesis by blast
qed

text \<open>
  C10. Grouping by the key (start, end, stage) does not change which records are
  produced: the multiset of the records of \<open>group_events\<close> is the multiset obtained by
  applying the split and emit step to each row on its own, in any row sequence.
\<close>

theorem group_events_content_neutral:
  "mset (group_events events) = mset (emit_ungrouped events)"
  by (simp add: group_events_flat mset_flat_grouped)

section \<open>Searching with a pattern\<close>

lemma prev_char_Cons: "prev_char p (c # cs) (Suc j) = prev_char (Some c) cs j"
  by (cases j) (simp_all add: prev_char_def)

lemma re_search_None_iff:
  "re_search pt p s = None \<longleftrightarrow>
     (\<forall>j \<le> length s. rmatch (fst pt) (snd pt) (prev_char p s j) (drop j s) = [])"
proof (induction s arbitrary: p)
  case Nil
  show ?case by (simp add: prev_char_def split: list.splits)
next
  case (Cons c cs)
  have "(\<forall>j \<le> length (c # cs). rmatch (fst pt) (snd pt) (prev_char p (c # cs) j) (drop j (c # cs)) = [])
    \<longleftrightarrow> rmatch (fst pt) (snd pt) p (c # cs) = []
       \<and> (\<forall>j \<le> length cs. rmatch (fst pt) (snd pt) (prev_char (Some c) cs j) (drop j cs) = [])"
    (is "?L \<longleftrightarrow> ?A \<and> ?B")
  proof
    assume l: ?L
    have ?A using l [rule_format, of 0] by (simp add: prev_char_def)
    moreover have ?B
    proof (intro allI impI)
      fix j assume "j \<le> length cs"
      then show "rmatch (fst pt) (snd pt) (prev_char (Some c) cs j) (drop j cs) = []"
        using l [rule_format, of "Suc j"] by (simp add: prev_char_Cons)
    qed
    ultimately show "?A \<and> ?B" ..
  next
    assume ab: "?A \<and> ?B"
    show ?L
    proof (intro allI impI)
      fix j assume j: "j \<le> length (c # cs)"
      show "rmatch (fst pt) (snd pt) (prev_char p (c # cs) j) (drop j (c # cs)) = []"
      proof (cases j)
        case 0
        then show ?thesis using ab by (simp add: prev_char_def)
      next
        case (Suc j')
        then show ?thesis using ab j by (simp add: prev_char_Cons)
      qed
    qed
  qed
  then show ?case using Cons.IH [of "Some c"]
    by (auto split: list.splits option.splits)
qed




section \<open>Mode detection\<close>

lemma is_word_token_chars [simp]:
  "is_word CHR ''B''" "is_word CHR ''2''" "is_word CHR ''3''" "is_word CHR ''F''"
  "is_word CHR ''V''" "is_word CHR ''S''"
  by (simp_all add: is_word_def code_point_def)

lemma rmatch_lit_wordb:
  assumes "t \<noteq> []" "is_word (last t)"
  shows "rmatch False (Seq (Lit t) WordB) p r = (if token_here r t then [length t] else [])"
proof (cases "length t \<le> length r \<and> take (length t) r = t")
  case False
  then show ?thesis by (auto simp: lit_eq_def token_here_def)
next
  case True
  then have "r ! (length t - 1) = t ! (length t - 1)"
    using assms by (metis diff_less length_greater_0_conv nth_take zero_less_one)
  then have "r ! (length t - 1) = last t"
    using assms by (simp add: last_conv_nth)
  then show ?thesis using True assms
    by (simp add: lit_eq_def token_here_def prev_char_def is_word_opt_def)
qed

lemma rmatch_seq_alt:
  "rmatch ic (Seq (Alt a b) c) p r = rmatch ic (Seq a c) p r @ rmatch ic (Seq b c) p r"
  by simp

lemma rmatch_MODE:
  "rmatch (fst MODE_PATTERN) (snd MODE_PATTERN) p r =
     (if is_word_opt p \<noteq> is_word_opt (first_char r)
      then concat (map (\<lambda>t. if token_here r t then [length t] else []) mode_tokens)
      else [])"
proof -
  have outer: "rmatch ic (Seq WordB x) p r =
      (if is_word_opt p \<noteq> is_word_opt (first_char r) then rmatch ic x p r else [])" for ic x
  proof -
    have "(+) (0::nat) = id" by auto
    then show ?thesis by (simp add: prev_char_def)
  qed
  have inner: "rmatch False (Seq (Alt (Lit ''B2B'') (Alt (Lit ''B3B'') (Alt (Lit ''F2F'') (Lit ''VS'')))) WordB) p r
      = concat (map (\<lambda>t. if token_here r t then [length t] else []) mode_tokens)"
    unfolding rmatch_seq_alt mode_tokens_def
    by (simp add: rmatch_lit_wordb del: rmatch.simps)
  show ?thesis
    by (simp only: MODE_PATTERN_def fst_conv snd_conv outer inner)
qed

lemma first_char_drop: "first_char (drop n s) = (if n < length s then Some (s ! n) else None)"
  by (simp add: first_char_def drop_eq_Nil hd_drop_conv_nth Cons_nth_drop_Suc [symmetric]
      split: list.splits)

lemma mode_token_word:
  "t \<in> set mode_tokens \<Longrightarrow> t \<noteq> [] \<and> is_word (hd t)"
  by (auto simp: mode_tokens_def)

lemma token_here_delimited:
  assumes "i \<le> length s" "t \<in> set mode_tokens"
  shows "(is_word_opt (prev_char None s i) \<noteq> is_word_opt (first_char (drop i s))
          \<and> token_here (drop i s) t) \<longleftrightarrow> delimited_at s i t"
proof (cases "length t \<le> length (drop i s) \<and> take (length t) (drop i s) = t")
  case False
  then show ?thesis by (auto simp: token_here_def delimited_at_def)
next
  case True
  from mode_token_word [OF assms(2)] obtain c cs where t: "t = c # cs" and c: "is_word c"
    by (cases t) auto
  from True t have lt: "i < length s" by auto
  from True t have "(drop i s) ! 0 = c"
    by (metis length_Cons nth_Cons_0 nth_take zero_less_Suc)
  then have "s ! i = c" using lt by simp
  then have fw: "is_word_opt (first_char (drop i s))"
    using lt c by (simp add: first_char_drop is_word_opt_def)
  have pw: "is_word_opt (prev_char None s i) \<longleftrightarrow> \<not> (i = 0 \<or> \<not> is_word (s ! (i - 1)))"
    by (simp add: prev_char_def is_word_opt_def)
  have aw: "is_word_opt (first_char (drop (length t) (drop i s)))
      \<longleftrightarrow> \<not> (i + length t = length s \<or> \<not> is_word (s ! (i + length t)))"
    using True lt t by (auto simp: first_char_drop is_word_opt_def add.commute)
  show ?thesis
    using True fw pw aw assms(1) by (auto simp: token_here_def delimited_at_def)
qed

lemma concat_map_if: "concat (map (\<lambda>t. if P t then [f t] else []) xs) = map f (filter P xs)"
  by (induction xs) auto

lemma mode_at:
  assumes "i \<le> length s"
  shows "rmatch (fst MODE_PATTERN) (snd MODE_PATTERN) (prev_char None s i) (drop i s)
       = map length (filter (delimited_at s i) mode_tokens)"
proof (cases "is_word_opt (prev_char None s i) \<noteq> is_word_opt (first_char (drop i s))")
  case True
  then have "filter (token_here (drop i s)) mode_tokens = filter (delimited_at s i) mode_tokens"
    using token_here_delimited [OF assms] by (intro filter_cong) auto
  then show ?thesis using True by (simp add: rmatch_MODE concat_map_if del: rmatch.simps)
next
  case False
  then have "filter (delimited_at s i) mode_tokens = []"
    using token_here_delimited [OF assms] by (auto simp: filter_empty_conv)
  then show ?thesis using False by (simp add: rmatch_MODE del: rmatch.simps)
qed



lemma detect_mode_none:
  assumes "\<forall>i t. t \<in> set mode_tokens \<longrightarrow> \<not> delimited_at s i t"
  shows "detect_mode s = []"
proof -
  have "re_search MODE_PATTERN None s = None"
    unfolding re_search_None_iff using assms by (simp add: mode_at filter_empty_conv)
  then show ?thesis by (simp add: detect_mode_def)
qed



section \<open>Header detection\<close>

lemma find_header_None: "find_header ls = None \<longleftrightarrow> (\<forall>l \<in> set ls. \<not> is_header l)"
  by (induction ls) (auto split: option.splits)

text \<open>
  C8. If no processed line is a header line (its trimmed content starts with
  \<open>Start,\<close> and the line contains \<open>End\<close>, \<open>Name\<close> and \<open>Location\<close>), then \<open>load_csv\<close>
  prints the error message to the standard error stream and returns the empty list
  without raising, whatever the tokeniser; \<open>main\<close> then reports that no events were
  found and exits, so no event is produced.
\<close>

theorem header_not_found:
  assumes "\<forall>line \<in> set (map process_line raw_lines). \<not> is_header line"
  shows "load_csv reader raw_lines = ([''Error: CSV header row not found.''], Inr [])
       \<and> main reader raw_lines =
           ([''Error: CSV header row not found.'',
             ''No valid events found. Check CSV formatting.''], Inr Exit1)"
proof -
  have "find_header (map process_line raw_lines) = None"
    using assms by (simp only: find_header_None)
  then have "load_csv reader raw_lines = ([''Error: CSV header row not found.''], Inr [])"
    by (simp add: load_csv_def)
  then show ?thesis by (simp add: main_def)
qed

theorem header_not_found_witness:
  "load_csv (\<lambda>ls. ([], False)) [''// some note'', ''Name,Start,End,Location'']
     = ([''Error: CSV header row not found.''], Inr [])
   \<and> main (\<lambda>ls. ([], False)) [''// some note'', ''Name,Start,End,Location'']
     = ([''Error: CSV header row not found.'',
         ''No valid events found. Check CSV formatting.''], Inr Exit1)"
proof -
  have "\<forall>line \<in> set (map process_line [''// some note'', ''Name,Start,End,Location'']).
          \<not> is_header line"
    by (simp add: is_header_def process_line_def lstrip_def strip_def rstrip_def startswith_def
        is_space_def code_point_def)
  from header_not_found [OF this] show ?thesis .
qed

section \<open>Sorting\<close>



section \<open>Short rows\<close>

text \<open>
  C5. A data row with fewer fields than the header: \<open>DictReader\<close> fills the missing
  field with \<open>None\<close>, the lookup returns it instead of the default, and \<open>strip\<close> on it
  raises \<open>AttributeError\<close>: the row is not dropped silently, the call fails.
\<close>

theorem short_row_raises:
  "load_csv (\<lambda>ls. ([[''Start'', ''End'', ''Name'', ''Location''],
                     [''2024/07/13 18:00'', ''2024/07/13 19:00'', ''DJ'']], False))
            [''Start,End,Name,Location'', ''2024/07/13 18:00,2024/07/13 19:00,DJ'']
     = ([], Inl AttributeError)"
  by (simp add: load_csv_def process_line_def is_header_def lstrip_def strip_def rstrip_def
      startswith_def is_space_def code_point_def dict_row_def row_event_def get_strip_def)

section \<open>The literal name that is never split\<close>

lemma space_not_word: "is_space c \<Longrightarrow> \<not> is_word c"
  by (auto simp: is_space_def is_word_def Let_def)

lemma lower_char_cases:
  "lower_char c = c \<or> (c, lower_char c) \<in> set (zip upper_chars lower_chars)"
  by (cases "map_of (zip upper_chars lower_chars) c") (auto simp: lower_char_def dest: map_of_SomeD)

lemma lower_char_b: "lower_char c = CHR ''b'' \<Longrightarrow> c = CHR ''b'' \<or> c = CHR ''B''"
  using lower_char_cases [of c] by (auto simp: upper_chars_def lower_chars_def)

lemma lower_char_2: "lower_char c = CHR ''2'' \<Longrightarrow> c = CHR ''2''"
  using lower_char_cases [of c] by (auto simp: upper_chars_def lower_chars_def)

lemma strip_decomp:
  "\<exists>pre post. n = pre @ strip n @ post \<and> (\<forall>c \<in> set pre. is_space c) \<and> (\<forall>c \<in> set post. is_space c)"
proof -
  let ?m = "lstrip n"
  have 1: "n = takeWhile is_space n @ ?m" by (simp add: lstrip_def)
  have "rev (dropWhile is_space (rev ?m)) @ rev (takeWhile is_space (rev ?m))
      = rev (takeWhile is_space (rev ?m) @ dropWhile is_space (rev ?m))"
    by (simp only: rev_append)
  also have "\<dots> = ?m" by (simp only: takeWhile_dropWhile_id rev_rev_ident)
  finally have 2: "?m = strip n @ rev (takeWhile is_space (rev ?m))"
    by (simp only: strip_def rstrip_def)
  have "n = takeWhile is_space n @ strip n @ rev (takeWhile is_space (rev ?m))"
    using 1 2 by metis
  moreover have "\<forall>c \<in> set (takeWhile is_space n). is_space c"
    by (auto dest: set_takeWhileD)
  moreover have "\<forall>c \<in> set (rev (takeWhile is_space (rev ?m))). is_space c"
    by (auto dest: set_takeWhileD)
  ultimately show ?thesis by blast
qed

lemma exception_core_word:
  assumes "lower core = ''b2b2b2b2b''"
  shows "length core = 9 \<and> (\<forall>c \<in> set core. is_word c)"
proof -
  have w: "is_word c" if "lower_char c = CHR ''b'' \<or> lower_char c = CHR ''2''" for c
    using that lower_char_b [of c] lower_char_2 [of c]
    by (auto simp: is_word_def code_point_def)
  have "length (map lower_char core) = length ''b2b2b2b2b''"
    using assms by (simp only: lower_def)
  then have len: "length core = 9" by simp
  have "\<forall>d \<in> set (map lower_char core). d = CHR ''b'' \<or> d = CHR ''2''"
    using assms by (simp add: lower_def)
  then have "\<forall>c \<in> set core. is_word c" using w by auto
  with len show ?thesis by simp
qed


lemma exception_no_token:
  assumes ex: "is_exception n" and t: "t \<in> set mode_tokens"
  shows "\<not> delimited_at n i t"
proof
  assume d: "delimited_at n i t"
  obtain pre post where n: "n = pre @ strip n @ post"
    and pre: "\<forall>c \<in> set pre. is_space c" and post: "\<forall>c \<in> set post. is_space c"
    using strip_decomp by blast
  define core where "core = strip n"
  have core: "length core = 9" "\<forall>c \<in> set core. is_word c"
    using ex exception_core_word unfolding is_exception_def core_def by blast+
  have n': "n = pre @ core @ post" using n core_def by simp
  have len: "length n = length pre + 9 + length post" using n' core by simp
  have word_pos: "is_word (n ! j) \<longleftrightarrow> length pre \<le> j \<and> j < length pre + 9"
    if "j < length n" for j
  proof (cases "j < length pre")
    case True
    then have "n ! j = pre ! j" using n' by (metis nth_append)
    then show ?thesis using True pre space_not_word by (metis nth_mem not_le)
  next
    case False
    note f1 = this
    show ?thesis
    proof (cases "j < length pre + 9")
      case True
      have jl: "j - length pre < length core" using True f1 core(1) by simp
      then have "n ! j = core ! (j - length pre)"
        using n' f1 by (simp add: nth_append)
      with jl show ?thesis using core(2) True f1 by (metis nth_mem not_le)
    next
      case False
      have jn: "\<not> j - length pre < length core" using False f1 core(1) by simp
      then have "n ! j = post ! (j - length pre - 9)"
        using n' f1 core(1) by (simp add: nth_append)
      moreover have "j - length pre - 9 < length post" using False that len by simp
      ultimately show ?thesis using post space_not_word False by (metis nth_mem)
    qed
  qed
  have lt: "2 \<le> length t" "length t \<le> 3" using t by (auto simp: mode_tokens_def)
  have tk: "take (length t) (drop i n) = t" and bound: "i + length t \<le> length n"
    and before: "i = 0 \<or> \<not> is_word (n ! (i - 1))"
    and after: "i + length t = length n \<or> \<not> is_word (n ! (i + length t))"
    using d by (simp_all add: delimited_at_def)
  have tw: "\<forall>c \<in> set t. is_word c" using t by (auto simp: mode_tokens_def)
  have at: "n ! (i + k) = t ! k" if "k < length t" for k
  proof -
    have "t ! k = take (length t) (drop i n) ! k" using tk by simp
    also have "\<dots> = drop i n ! k" using that by simp
    also have "\<dots> = n ! (i + k)" using bound that by simp
    finally show ?thesis by simp
  qed
  have w0: "is_word (n ! i)" using at [of 0] lt tw by (metis add.right_neutral nth_mem less_le_trans zero_less_numeral)
  have wl: "is_word (n ! (i + length t - 1))"
  proof -
    have "length t - 1 < length t" using lt by simp
    then have "is_word (n ! (i + (length t - 1)))" using at tw by (metis nth_mem)
    then show ?thesis using lt by simp
  qed
  have i1: "length pre \<le> i" using w0 word_pos [of i] bound lt by simp
  have i2: "i \<le> length pre"
  proof (rule ccontr)
    assume "\<not> i \<le> length pre"
    then have "length pre \<le> i - 1" "i - 1 < length pre + 9" "i - 1 < length n" "i \<noteq> 0"
      using w0 word_pos [of i] bound lt by simp_all
    then show False using before word_pos [of "i - 1"] by simp
  qed
  have e1: "i + length t - 1 < length pre + 9"
    using wl word_pos [of "i + length t - 1"] bound lt by simp
  have "i + length t = length pre + 9"
  proof (rule ccontr)
    assume "i + length t \<noteq> length pre + 9"
    then have l: "i + length t < length pre + 9" using e1 by simp
    then have "i + length t < length n" using len by simp
    moreover have "is_word (n ! (i + length t))"
      using word_pos [of "i + length t"] l i1 len by simp
    ultimately show False using after by simp
  qed
  then show False using i1 i2 lt by simp
qed

lemma exception_mode: "is_exception n \<Longrightarrow> detect_mode n = []"
  by (rule detect_mode_none) (auto dest: exception_no_token)

section \<open>The records of one name\<close>

lemma group_events_one: "group_events [ev] = emit_row ev"
  by (simp add: group_events_def grouped_def emit_row_def)

lemma emit_ungrouped_remove1:
  "ev \<in> set events \<Longrightarrow>
     mset (emit_ungrouped events) = mset (emit_row ev) + mset (emit_ungrouped (remove1 ev events))"
  by (induction events) (auto simp: emit_ungrouped_def)

lemma group_events_rest:
  assumes "ev \<in> set events"
  shows "\<exists>pre post. group_events events = pre @ emit_row ev @ post
           \<and> mset pre + mset post = mset (emit_ungrouped (remove1 ev events))"
proof -
  from group_events_block [OF assms] obtain pre post where
    g: "group_events events = pre @ emit_row ev @ post" by blast
  have "mset (group_events events) = mset (emit_ungrouped events)"
    by (simp add: group_events_flat mset_flat_grouped)
  then have "mset pre + mset (emit_row ev) + mset post
      = mset (emit_row ev) + mset (emit_ungrouped (remove1 ev events))"
    using g emit_ungrouped_remove1 [OF assms] by simp
  then have "mset pre + mset post = mset (emit_ungrouped (remove1 ev events))"
    by (simp add: ac_simps)
  with g show ?thesis by blast
qed


lemma emit_row_single:
  assumes "length (split_artists (row_name ev)) \<le> 1"
  shows "emit_row ev =
     [\<lparr>name = clean_name (row_name ev), time = parse_datetime (row_start ev),
       end_time = parse_datetime (row_end ev), stage = row_stage ev,
       performance_mode = detect_mode (row_name ev), custom_name = None\<rparr>]"
  using assms by (simp add: emit_row_def emit_name_def)


lemma split_pieces_artists:
  assumes "length (split_pieces n) \<le> 1"
  shows "length (split_artists n) \<le> 1"
  using assms by (simp add: split_artists_def)





text \<open>
  C7. For every row whose name, trimmed and lowercased, is the literal \<open>b2b2b2b2b\<close>,
  the name is not split: the splitting step yields the suffix-stripped name alone, and
  exactly one record is emitted, named by the suffix-stripped original name, with the
  empty mode and no custom name. The row alone yields exactly this record; within any
  row sequence it stands in the output of \<open>group_events\<close>, and what stands around
  it is exactly what the other rows emit.
\<close>

theorem exception_name_event:
  assumes "ev \<in> set events" and "lower (strip (row_name ev)) = ''b2b2b2b2b''"
  shows "split_artists (row_name ev) = [clean_name (row_name ev)]
     \<and> (let rec1 =
              \<lparr>name = clean_name (row_name ev), time = parse_datetime (row_start ev),
               end_time = parse_datetime (row_end ev), stage = row_stage ev,
               performance_mode = [], custom_name = None\<rparr>
          in emit_name (row_start ev, row_end ev, row_stage ev) (row_name ev) = [rec1]
           \<and> group_events [ev] = [rec1]
           \<and> (\<exists>pre post. group_events events = pre @ [rec1] @ post
                 \<and> mset pre + mset post = mset (emit_ungrouped (remove1 ev events))))"
proof -
  define rec1 where "rec1 =
              \<lparr>name = clean_name (row_name ev), time = parse_datetime (row_start ev),
               end_time = parse_datetime (row_end ev), stage = row_stage ev,
               performance_mode = ([] :: string), custom_name = (None :: string option)\<rparr>"
  have x: "is_exception (row_name ev)" using assms(2) by (simp add: is_exception_def)
  then have s: "split_artists (row_name ev) = [clean_name (row_name ev)]"
    by (simp add: split_artists_def)
  then have "length (split_artists (row_name ev)) \<le> 1" by simp
  then have e: "emit_row ev = [rec1]"
    using emit_row_single exception_mode [OF x] by (simp add: rec1_def)
  have 1: "emit_name (row_start ev, row_end ev, row_stage ev) (row_name ev) = [rec1]"
    using e by (simp add: emit_row_def)
  have 2: "group_events [ev] = [rec1]"
    using e by (simp add: group_events_one)
  have 3: "\<exists>pre post. group_events events = pre @ [rec1] @ post
           \<and> mset pre + mset post = mset (emit_ungrouped (remove1 ev events))"
    using group_events_rest [OF assms(1)] e by simp
  from s 1 2 3 show ?thesis
    unfolding Let_def rec1_def [symmetric] by (intro conjI)
qed

theorem exception_name_event_witness:
  "lower (strip (row_name ex_row_literal_mixed)) = ''b2b2b2b2b''
   \<and> group_events [ex_row_literal_mixed] =
     [\<lparr>name = ''b2B2b2B2B'', time = ''2024-07-13T18:00'', end_time = ''2024-07-13T19:00'',
       stage = ''Main Stage'', performance_mode = [], custom_name = None\<rparr>]"
proof -
  have h1: "ex_row_literal_mixed \<in> set [ex_row_literal_mixed]" by simp
  have h2: "lower (strip (row_name ex_row_literal_mixed)) = ''b2b2b2b2b''" by code_simp
  have v: "parse_datetime (row_start ex_row_literal_mixed) = ''2024-07-13T18:00''"
    "parse_datetime (row_end ex_row_literal_mixed) = ''2024-07-13T19:00''"
    "row_stage ex_row_literal_mixed = ''Main Stage''"
    "clean_name (row_name ex_row_literal_mixed) = ''b2B2b2B2B''"
    by code_simp+
  from exception_name_event [OF h1 h2, unfolded Let_def]
  have "group_events [ex_row_literal_mixed] =
      [\<lparr>name = clean_name (row_name ex_row_literal_mixed),
        time = parse_datetime (row_start ex_row_literal_mixed),
        end_time = parse_datetime (row_end ex_row_literal_mixed),
        stage = row_stage ex_row_literal_mixed,
        performance_mode = [], custom_name = None\<rparr>]"
    by (elim conjE)
  with h2 show ?thesis unfolding v by (intro conjI)
qed

text \<open>
  The guard for the literal name is what keeps it whole: the split on the separator
  pattern alone would cut \<open>B2B2B2B2B\<close> into the two pieces \<open>2\<close> and \<open>2B\<close>.
\<close>

lemma literal_name_guard:
  "split_pieces (row_name ex_row_literal) = [''2'', ''2B'']
   \<and> split_artists (row_name ex_row_literal) = [''B2B2B2B2B'']"
proof -
  have sp: "split_pieces (row_name ex_row_literal) = [''2'', ''2B'']" by code_simp
  have sa: "split_artists (row_name ex_row_literal) = [''B2B2B2B2B'']" by code_simp
  show ?thesis unfolding sp sa by simp
qed

section \<open>Names are never empty\<close>

lemma rstrip_decomp: "\<exists>w. t = rstrip t @ w"
proof -
  have "rev (dropWhile is_space (rev t)) @ rev (takeWhile is_space (rev t))
      = rev (takeWhile is_space (rev t) @ dropWhile is_space (rev t))"
    by (simp only: rev_append)
  also have "\<dots> = t" by (simp only: takeWhile_dropWhile_id rev_rev_ident)
  finally show ?thesis by (metis rstrip_def)
qed

lemma strip_hd_nonspace:
  assumes "strip v \<noteq> []"
  shows "\<not> is_space (hd (strip v))"
proof -
  obtain w where w: "lstrip v = strip v @ w" using rstrip_decomp [of "lstrip v"]
    by (auto simp: strip_def)
  then have ne: "lstrip v \<noteq> []" using assms by auto
  have "hd (strip v) = hd (lstrip v)" using w assms by (metis hd_append2)
  moreover have "\<not> is_space (hd (lstrip v))"
    using ne unfolding lstrip_def by (rule hd_dropWhile)
  ultimately show ?thesis by simp
qed

lemma strip_Cons_nonspace:
  assumes "\<not> is_space c"
  shows "strip (c # xs) \<noteq> []"
proof -
  have "dropWhile is_space (rev xs @ [c]) \<noteq> []"
    using assms by (simp add: dropWhile_append)
  then show ?thesis using assms by (simp add: strip_def lstrip_def rstrip_def)
qed

lemma suffix_no_match_nonspace:
  "\<not> is_space c \<Longrightarrow> rmatch (fst SUFFIX_PATTERN) (snd SUFFIX_PATTERN) p (c # cs) = []"
  by (simp add: SUFFIX_PATTERN_def)

lemma clean_name_nonempty:
  assumes "s \<noteq> []" "\<not> is_space (hd s)"
  shows "clean_name s \<noteq> []"
proof -
  obtain c cs where s: "s = c # cs" and c: "\<not> is_space c"
    using assms by (cases s) auto
  have "re_remove SUFFIX_PATTERN 0 None (c # cs) = c # re_remove SUFFIX_PATTERN 0 (Some c) cs"
    using suffix_no_match_nonspace [OF c] by simp
  then show ?thesis using c s by (simp add: clean_name_def strip_Cons_nonspace)
qed

lemma get_strip_name:
  "get_strip d key = Inr v \<Longrightarrow> v \<noteq> [] \<Longrightarrow> \<not> is_space (hd v)"
  by (auto simp: get_strip_def strip_hd_nonspace split: option.splits cell.splits)

lemma row_event_name:
  "row_event d = Inr (Some ev) \<Longrightarrow> row_name ev \<noteq> [] \<and> \<not> is_space (hd (row_name ev))"
  by (auto simp: row_event_def split: sum.splits if_splits dest: get_strip_name)

lemma read_rows_names:
  "read_rows fieldnames rows = Inr evs \<Longrightarrow>
     \<forall>ev \<in> set evs. row_name ev \<noteq> [] \<and> \<not> is_space (hd (row_name ev))"
proof (induction rows arbitrary: evs)
  case Nil
  then show ?case by simp
next
  case (Cons r rs)
  show ?case
  proof (cases "r = []")
    case True
    then show ?thesis using Cons by simp
  next
    case False
    show ?thesis
    proof (cases "row_event (dict_row fieldnames r)")
      case (Inl e)
      then show ?thesis using Cons.prems False by simp
    next
      case (Inr ro)
      show ?thesis
      proof (cases ro)
        case None
        then show ?thesis using Cons Inr False by simp
      next
        case (Some ev)
        with Cons.prems Inr False obtain evs' where
          r: "read_rows fieldnames rs = Inr evs'" and e: "evs = ev # evs'"
          by (auto split: sum.splits)
        from Cons.IH [OF r] row_event_name Inr Some e show ?thesis by auto
      qed
    qed
  qed
qed

lemma load_csv_names:
  assumes "load_csv reader raw_lines = (err, Inr evs)"
  shows "\<forall>ev \<in> set evs. row_name ev \<noteq> [] \<and> \<not> is_space (hd (row_name ev))"
  using assms read_rows_names
  by (auto simp: load_csv_def Let_def split: option.splits prod.splits list.splits sum.splits if_splits)

lemma emit_name_names:
  assumes "n \<noteq> []" "\<not> is_space (hd n)" "e \<in> set (emit_name key n)"
  shows "name e \<noteq> []"
proof (cases "1 < length (split_artists n)")
  case True
  then have ne: "\<not> is_exception n" by (auto simp: split_artists_def)
  with True assms(3) have "name e \<in> set (split_pieces n)"
    by (cases key) (auto simp: emit_name_def split_artists_def)
  then show ?thesis by (auto simp: split_pieces_def)
next
  case False
  with assms(3) have "name e = clean_name n"
    by (cases key) (auto simp: emit_name_def)
  then show ?thesis using clean_name_nonempty assms(1,2) by simp
qed

lemma group_events_names:
  assumes "\<forall>ev \<in> set evs. row_name ev \<noteq> [] \<and> \<not> is_space (hd (row_name ev))"
    and "e \<in> set (group_events evs)"
  shows "name e \<noteq> []"
proof -
  have "set (group_events evs) = set (emit_ungrouped evs)"
    using mset_flat_grouped [of evs] by (metis group_events_flat mset_eq_setD)
  with assms(2) obtain ev where "ev \<in> set evs" "e \<in> set (emit_row ev)"
    by (auto simp: emit_ungrouped_def)
  then show ?thesis using assms(1) emit_name_names by (auto simp: emit_row_def)
qed

text \<open>
  C6. Every record of the final output has a non-empty name: the rows kept by
  \<open>load_csv\<close> have trimmed, non-empty names; in the split branch the pieces that are
  empty after suffix stripping are dropped, and in the other branch the
  suffix-stripped name keeps the first character of the trimmed name.
\<close>

theorem output_names_nonempty:
  assumes "main reader raw_lines = (err, Inr (Output out))"
  shows "\<forall>e \<in> set out. name e \<noteq> []"
proof -
  from assms obtain evs where l: "load_csv reader raw_lines = (err, Inr evs)"
    and out: "out = sort_merged (group_events evs)"
    by (auto simp: main_def split: prod.splits sum.splits if_splits)
  have "set out = set (group_events evs)" using out by (simp add: sort_merged_def)
  then show ?thesis using group_events_names [OF load_csv_names [OF l]] by blast
qed

theorem output_names_nonempty_witness:
  "main ex_reader ex_lines =
     ([], Inr (Output
       [\<lparr>name = ''DJ'', time = ''2024-07-13T18:00'', end_time = ''2024-07-13T19:00'',
          stage = ''Main Stage'', performance_mode = ''B2B'',
          custom_name = Some ''DJ X B2B DJ Y''\<rparr>,
        \<lparr>name = ''DJ Y'', time = ''2024-07-13T18:00'', end_time = ''2024-07-13T19:00'',
          stage = ''Main Stage'', performance_mode = ''B2B'',
          custom_name = Some ''DJ X B2B DJ Y''\<rparr>]))
   \<and> name \<lparr>name = ''DJ'', time = ''2024-07-13T18:00'', end_time = ''2024-07-13T19:00'',
          stage = ''Main Stage'', performance_mode = ''B2B'',
          custom_name = Some ''DJ X B2B DJ Y''\<rparr> \<noteq> []
   \<and> name \<lparr>name = ''DJ Y'', time = ''2024-07-13T18:00'', end_time = ''2024-07-13T19:00'',
          stage = ''Main Stage'', performance_mode = ''B2B'',
          custom_name = Some ''DJ X B2B DJ Y''\<rparr> \<noteq> []"
proof -
  have m: "main ex_reader ex_lines =
     ([], Inr (Output
       [\<lparr>name = ''DJ'', time = ''2024-07-13T18:00'', end_time = ''2024-07-13T19:00'',
          stage = ''Main Stage'', performance_mode = ''B2B'',
          custom_name = Some ''DJ X B2B DJ Y''\<rparr>,
        \<lparr>name = ''DJ Y'', time = ''2024-07-13T18:00'', end_time = ''2024-07-13T19:00'',
          stage = ''Main Stage'', performance_mode = ''B2B'',
          custom_name = Some ''DJ X B2B DJ Y''\<rparr>]))"
    by code_simp
  from output_names_nonempty [OF m] have
    "name \<lparr>name = ''DJ'', time = ''2024-07-13T18:00'', end_time = ''2024-07-13T19:00'',
          stage = ''Main Stage'', performance_mode = ''B2B'',
          custom_name = Some ''DJ X B2B DJ Y''\<rparr> \<noteq> []"
    "name \<lparr>name = ''DJ Y'', time = ''2024-07-13T18:00'', end_time = ''2024-07-13T19:00'',
          stage = ''Main Stage'', performance_mode = ''B2B'',
          custom_name = Some ''DJ X B2B DJ Y''\<rparr> \<noteq> []"
    by (simp_all del: output_event.simps)
  with m show ?thesis by (intro conjI)
qed

section \<open>Suffix stripping is applied once\<close>
































section \<open>The datetime normaliser\<close>

lemma split_ws_Nil: "split_ws [] = []"
  by (simp add: split_ws.simps)

lemma split_ws_spaces:
  assumes "list_all is_space w"
  shows "split_ws (w @ s) = split_ws s"
proof -
  have "dropWhile is_space (w @ s) = dropWhile is_space s"
    using assms by (simp add: dropWhile_append list_all_iff)
  then show ?thesis
    by (subst split_ws.simps, subst (2) split_ws.simps) simp
qed

lemma split_ws_token:
  assumes "tok \<noteq> []" "list_all (\<lambda>c. \<not> is_space c) tok" "rest = [] \<or> is_space (hd rest)"
  shows "split_ws (tok @ rest) = tok # split_ws rest"
proof -
  obtain c cs where tok: "tok = c # cs" and c: "\<not> is_space c"
    using assms(1,2) by (cases tok) auto
  have d: "dropWhile is_space (tok @ rest) = tok @ rest" using tok c by simp
  have t: "takeWhile (\<lambda>c. \<not> is_space c) (tok @ rest) = tok"
    using assms(2,3) by (cases rest) (auto simp: takeWhile_append list_all_iff)
  have r: "dropWhile (\<lambda>c. \<not> is_space c) (tok @ rest) = rest"
    using assms(2,3) by (cases rest) (auto simp: dropWhile_append list_all_iff)
  show ?thesis
    by (subst split_ws.simps) (simp add: d t r Let_def assms(1))
qed

lemma strip_surround:
  assumes "list_all is_space w1" "list_all is_space w2"
    and "body \<noteq> []" "\<not> is_space (hd body)" "\<not> is_space (last body)"
  shows "strip (w1 @ body @ w2) = body"
proof -
  obtain c cs where b: "body = c # cs" using assms(3) by (cases body) auto
  have "lstrip (w1 @ body @ w2) = body @ w2"
    using assms(1,4) b by (simp add: lstrip_def dropWhile_append list_all_iff)
  moreover have "rstrip (body @ w2) = body"
  proof -
    have "rev body \<noteq> []" "\<not> is_space (hd (rev body))"
      using assms(3,5) by (simp_all add: hd_rev)
    then have "dropWhile is_space (rev body) = rev body"
      by (cases "rev body") auto
    then show ?thesis
      using assms(2) by (simp add: rstrip_def dropWhile_append list_all_iff)
  qed
  ultimately show ?thesis by (simp add: strip_def)
qed

lemma split_on_nonempty: "split_on sep s \<noteq> []"
  by (induction s) (auto split: list.splits)

lemma split_on_no_sep: "sep \<notin> set x \<Longrightarrow> split_on sep x = [x]"
  by (induction x) auto

lemma split_on_append: "sep \<notin> set x \<Longrightarrow> split_on sep (x @ sep # r) = x # split_on sep r"
  by (induction x) (auto simp: split_on_nonempty split: list.splits)

lemma parse_datetime_tokens:
  assumes "split_ws (strip s) = [d, t]" "split_on CHR ''/'' d = [y, m, dd]"
  shows "parse_datetime s = y @ ''-'' @ m @ ''-'' @ dd @ ''T'' @ t"
proof -
  have "strip s \<noteq> []" using assms(1) split_ws_Nil by auto
  moreover then have "s \<noteq> []" by (auto simp: strip_def lstrip_def rstrip_def)
  ultimately show ?thesis using assms by (simp add: parse_datetime_def)
qed

lemma parse_datetime_count:
  assumes "length (split_ws (strip s)) \<noteq> 2"
  shows "parse_datetime s = []"
  using assms by (auto simp: parse_datetime_def Let_def split: list.splits)

lemma parse_datetime_date:
  assumes "split_ws (strip s) = [d, t]" "length (split_on CHR ''/'' d) \<noteq> 3"
  shows "parse_datetime s = []"
  using assms by (auto simp: parse_datetime_def Let_def split: list.splits)

lemma parse_datetime_form:
  assumes ws: "list_all is_space w1" "list_all is_space w2" "list_all is_space sep" "sep \<noteq> []"
    and y: "list_all (\<lambda>c. \<not> is_space c \<and> c \<noteq> CHR ''/'') y"
    and m: "list_all (\<lambda>c. \<not> is_space c \<and> c \<noteq> CHR ''/'') m"
    and dd: "list_all (\<lambda>c. \<not> is_space c \<and> c \<noteq> CHR ''/'') dd"
    and t: "list_all (\<lambda>c. \<not> is_space c) t" "t \<noteq> []"
  shows "parse_datetime (w1 @ y @ ''/'' @ m @ ''/'' @ dd @ sep @ t @ w2)
       = y @ ''-'' @ m @ ''-'' @ dd @ ''T'' @ t"
proof -
  let ?d = "y @ ''/'' @ m @ ''/'' @ dd"
  let ?body = "?d @ sep @ t"
  have sl: "\<not> is_space CHR ''/''" by (simp add: is_space_def code_point_def)
  have dn: "list_all (\<lambda>c. \<not> is_space c) ?d"
    using y m dd sl by (auto simp: list_all_iff)
  have dne: "?d \<noteq> []" by simp
  have hd: "\<not> is_space (hd ?body)"
    using dn by (cases y) (auto simp: sl)
  have lst: "\<not> is_space (last ?body)"
    using t by (auto simp: list_all_iff)
  have "strip (w1 @ ?body @ w2) = ?body"
    using ws(1,2) hd lst by (intro strip_surround) simp_all
  then have st: "strip (w1 @ y @ ''/'' @ m @ ''/'' @ dd @ sep @ t @ w2) = ?body" by simp
  have sp: "is_space (hd (sep @ t))" using ws(3,4) by (cases sep) auto
  have "split_ws (?d @ (sep @ t)) = ?d # split_ws (sep @ t)"
    using dne dn sp by (intro split_ws_token) simp_all
  also have "split_ws (sep @ t) = split_ws t" using ws(3) by (rule split_ws_spaces)
  also have "split_ws t = [t]"
    using split_ws_token [of t "[]"] t by (simp add: split_ws_Nil)
  finally have tok: "split_ws (strip (w1 @ y @ ''/'' @ m @ ''/'' @ dd @ sep @ t @ w2)) = [?d, t]"
    using st by simp
  have ny: "CHR ''/'' \<notin> set y" and nm: "CHR ''/'' \<notin> set m" and nd: "CHR ''/'' \<notin> set dd"
    using y m dd by (auto simp: list_all_iff)
  have "split_on CHR ''/'' ?d = y # split_on CHR ''/'' (m @ ''/'' @ dd)"
    using split_on_append [OF ny] by simp
  also have "split_on CHR ''/'' (m @ ''/'' @ dd) = m # split_on CHR ''/'' dd"
    using split_on_append [OF nm] by simp
  also have "split_on CHR ''/'' dd = [dd]" using nd by (rule split_on_no_sep)
  finally have "split_on CHR ''/'' ?d = [y, m, dd]" .
  with tok show ?thesis by (rule parse_datetime_tokens)
qed

text \<open>
  C3. \<open>parse_datetime\<close> returns the empty string when the trimmed input is empty,
  when it does not split into exactly two whitespace-separated tokens, and when the
  first token does not split into exactly three components at \<open>/\<close>; otherwise it
  returns the three components joined by \<open>-\<close>, then \<open>T\<close>, then the second token. In
  particular every input made of a date \<open>y/m/d\<close> and a time, separated and surrounded
  by whitespace, is mapped to \<open>y-m-dTtime\<close>, whatever the components are: no calendar
  check is made.
\<close>

theorem parse_datetime_spec:
  "(strip s = [] \<longrightarrow> parse_datetime s = [])
   \<and> (length (split_ws (strip s)) \<noteq> 2 \<longrightarrow> parse_datetime s = [])
   \<and> (\<forall>d t. split_ws (strip s) = [d, t] \<and> length (split_on CHR ''/'' d) \<noteq> 3
         \<longrightarrow> parse_datetime s = [])
   \<and> (\<forall>d t y m dd. split_ws (strip s) = [d, t] \<and> split_on CHR ''/'' d = [y, m, dd]
         \<longrightarrow> parse_datetime s = y @ ''-'' @ m @ ''-'' @ dd @ ''T'' @ t)
   \<and> (\<forall>w1 w2 sep y m dd t.
         list_all is_space w1 \<and> list_all is_space w2 \<and> list_all is_space sep \<and> sep \<noteq> []
         \<and> list_all (\<lambda>c. \<not> is_space c \<and> c \<noteq> CHR ''/'') y
         \<and> list_all (\<lambda>c. \<not> is_space c \<and> c \<noteq> CHR ''/'') m
         \<and> list_all (\<lambda>c. \<not> is_space c \<and> c \<noteq> CHR ''/'') dd
         \<and> list_all (\<lambda>c. \<not> is_space c) t \<and> t \<noteq> []
         \<and> s = w1 @ y @ ''/'' @ m @ ''/'' @ dd @ sep @ t @ w2
         \<longrightarrow> parse_datetime s = y @ ''-'' @ m @ ''-'' @ dd @ ''T'' @ t)"
proof (intro conjI allI impI)
  assume "strip s = []"
  then show "parse_datetime s = []" by (simp add: parse_datetime_def)
next
  assume "length (split_ws (strip s)) \<noteq> 2"
  then show "parse_datetime s = []" by (rule parse_datetime_count)
next
  fix d t
  assume "split_ws (strip s) = [d, t] \<and> length (split_on CHR ''/'' d) \<noteq> 3"
  then show "parse_datetime s = []" using parse_datetime_date by blast
next
  fix d t y m dd
  assume "split_ws (strip s) = [d, t] \<and> split_on CHR ''/'' d = [y, m, dd]"
  then show "parse_datetime s = y @ ''-'' @ m @ ''-'' @ dd @ ''T'' @ t"
    using parse_datetime_tokens by blast
next
  fix w1 w2 sep y m dd t
  assume "list_all is_space w1 \<and> list_all is_space w2 \<and> list_all is_space sep \<and> sep \<noteq> []
         \<and> list_all (\<lambda>c. \<not> is_space c \<and> c \<noteq> CHR ''/'') y
         \<and> list_all (\<lambda>c. \<not> is_space c \<and> c \<noteq> CHR ''/'') m
         \<and> list_all (\<lambda>c. \<not> is_space c \<and> c \<noteq> CHR ''/'') dd
         \<and> list_all (\<lambda>c. \<not> is_space c) t \<and> t \<noteq> []
         \<and> s = w1 @ y @ ''/'' @ m @ ''/'' @ dd @ sep @ t @ w2"
  then show "parse_datetime s = y @ ''-'' @ m @ ''-'' @ dd @ ''T'' @ t"
    using parse_datetime_form by blast
qed

theorem parse_datetime_spec_witness:
  "parse_datetime ''2024/07/13 18:30'' = ''2024-07-13T18:30''
   \<and> parse_datetime ''2024/13/40 18:30'' = ''2024-13-40T18:30''
   \<and> parse_datetime ''   '' = []
   \<and> parse_datetime ''garbage'' = []
   \<and> parse_datetime ''07/13 18:30'' = []"
proof -
  have sp: "list_all is_space '' ''" by (simp add: is_space_def code_point_def)
  have ns: "list_all (\<lambda>c. \<not> is_space c \<and> c \<noteq> CHR ''/'') ''2024''"
    "list_all (\<lambda>c. \<not> is_space c \<and> c \<noteq> CHR ''/'') ''07''"
    "list_all (\<lambda>c. \<not> is_space c \<and> c \<noteq> CHR ''/'') ''13''"
    "list_all (\<lambda>c. \<not> is_space c) ''18:30''"
    by (simp_all add: is_space_def code_point_def)
  have eq: "''2024/07/13 18:30''
      = [] @ ''2024'' @ ''/'' @ ''07'' @ ''/'' @ ''13'' @ '' '' @ ''18:30'' @ []"
    by simp
  have a: "list_all is_space [] \<and> list_all is_space [] \<and> list_all is_space '' '' \<and> '' '' \<noteq> []
         \<and> list_all (\<lambda>c. \<not> is_space c \<and> c \<noteq> CHR ''/'') ''2024''
         \<and> list_all (\<lambda>c. \<not> is_space c \<and> c \<noteq> CHR ''/'') ''07''
         \<and> list_all (\<lambda>c. \<not> is_space c \<and> c \<noteq> CHR ''/'') ''13''
         \<and> list_all (\<lambda>c. \<not> is_space c) ''18:30'' \<and> ''18:30'' \<noteq> []
         \<and> ''2024/07/13 18:30''
            = [] @ ''2024'' @ ''/'' @ ''07'' @ ''/'' @ ''13'' @ '' '' @ ''18:30'' @ []"
    using sp ns eq by (intro conjI) simp_all
  note T1 = parse_datetime_spec [of "''2024/07/13 18:30''"]
  have 1: "parse_datetime ''2024/07/13 18:30'' = ''2024-07-13T18:30''"
    using T1 [THEN conjunct2, THEN conjunct2, THEN conjunct2, THEN conjunct2, rule_format, OF a]
    by simp
  have b: "split_ws (strip ''2024/13/40 18:30'') = [''2024/13/40'', ''18:30'']
      \<and> split_on CHR ''/'' ''2024/13/40'' = [''2024'', ''13'', ''40'']" by code_simp
  note T2 = parse_datetime_spec [of "''2024/13/40 18:30''"]
  have 2: "parse_datetime ''2024/13/40 18:30'' = ''2024-13-40T18:30''"
    using T2 [THEN conjunct2, THEN conjunct2, THEN conjunct2, THEN conjunct1, rule_format, OF b]
    by simp
  have c: "strip ''   '' = []" by code_simp
  note T3 = parse_datetime_spec [of "''   ''"]
  have 3: "parse_datetime ''   '' = []"
    using T3 [THEN conjunct1, rule_format, OF c] .
  have d: "length (split_ws (strip ''garbage'')) \<noteq> 2" by code_simp
  note T4 = parse_datetime_spec [of "''garbage''"]
  have 4: "parse_datetime ''garbage'' = []"
    using T4 [THEN conjunct2, THEN conjunct1, rule_format, OF d] .
  have e: "split_ws (strip ''07/13 18:30'') = [''07/13'', ''18:30'']
      \<and> length (split_on CHR ''/'' ''07/13'') \<noteq> 3" by code_simp
  note T5 = parse_datetime_spec [of "''07/13 18:30''"]
  have 5: "parse_datetime ''07/13 18:30'' = []"
    using T5 [THEN conjunct2, THEN conjunct2, THEN conjunct1, rule_format, OF e] .
  from 1 2 3 4 5 show ?thesis by (intro conjI)
qed

end
